theory Spec2Isabelle
  imports Main "HOL-Library.Word" "HOL-Library.Sublist"
begin

section \<open>Contact Management System: the data model\<close>

text \<open>
  The program is one C++ file, \<^verbatim>\<open>main.cpp\<close>. A \<^verbatim>\<open>Contact\<close> is a struct of an
  \<^verbatim>\<open>int id\<close> and three \<^verbatim>\<open>std::string\<close>s. The \<^verbatim>\<open>int\<close> is a 32-bit two's complement
  value, read with \<open>sint\<close> and compared with \<open><s\<close>; a \<^verbatim>\<open>std::string\<close> is a list of
  bytes. The field \<^verbatim>\<open>id\<close> is called \<open>id'\<close> here, \<open>id\<close> being the identity function of HOL.
\<close>

type_synonym int32 = "32 word"

record Contact =
  id' :: int32
  name :: string
  phone :: string
  email :: string

text \<open>
  The global vector \<^verbatim>\<open>contacts\<close> and the file \<^verbatim>\<open>contacts.txt\<close> are the state of the
  program. The file is its content, or \<open>None\<close> when it does not exist (or cannot be
  opened for reading). Writing the file is taken to succeed.
\<close>

record store =
  contacts :: "Contact list"
  DATA_FILE :: "string option"

text \<open>
  An uncaught exception ends the process; \<^verbatim>\<open>std::stoi\<close> throws these two.
\<close>

datatype error = invalid_argument | out_of_range

definition INT_MIN :: int where
  "INT_MIN = - (2 ^ 31)"

definition INT_MAX :: int where
  "INT_MAX = 2 ^ 31 - 1"

section \<open>Library functions the program calls\<close>

subsection \<open>\<^verbatim>\<open>std::getline\<close>\<close>

text \<open>
  An input stream is the list of characters not yet extracted. \<^verbatim>\<open>std::getline\<close>
  extracts characters up to the delimiter, which it extracts and drops, or up to the end
  of the stream. It fails when it extracts nothing, which happens exactly when nothing is
  left: either the end was reached by the call before (the sentry then fails and the
  target string is left as it was) or the stream was empty from the start (the target
  string is erased). A failed stream fails every later call.
\<close>

definition getline :: "string \<Rightarrow> char \<Rightarrow> (string \<times> string) option" where
  "getline is delim =
     (if is = [] then None
      else Some (takeWhile (\<lambda>c. c \<noteq> delim) is, drop 1 (dropWhile (\<lambda>c. c \<noteq> delim) is)))"

subsection \<open>\<^verbatim>\<open>std::stoi\<close>\<close>

text \<open>
  \<^verbatim>\<open>std::stoi(str)\<close> calls \<^verbatim>\<open>strtol\<close> with base 10: it skips leading white space (the
  six characters of \<^verbatim>\<open>isspace\<close> in the C locale), reads an optional sign and then the
  longest run of decimal digits, and ignores whatever follows. With no digit there it
  throws \<^verbatim>\<open>std::invalid_argument\<close>; with a value outside \<^verbatim>\<open>int\<close> it throws
  \<^verbatim>\<open>std::out_of_range\<close>.
\<close>

definition isspace :: "char \<Rightarrow> bool" where
  "isspace c = (c \<in> set [CHR '' '', CHR 0x09, CHR 0x0A, CHR 0x0B, CHR 0x0C, CHR 0x0D])"

definition isdigit :: "char \<Rightarrow> bool" where
  "isdigit c = (48 \<le> (of_char c :: nat) \<and> (of_char c :: nat) \<le> 57)"

definition digit_val :: "char \<Rightarrow> nat" where
  "digit_val c = of_char c - 48"

definition digits_val :: "string \<Rightarrow> nat" where
  "digits_val ds = foldl (\<lambda>acc c. 10 * acc + digit_val c) 0 ds"

definition stoi :: "string \<Rightarrow> error + int32" where
  "stoi str =
     (let s1 = dropWhile isspace str;
          neg = (case s1 of [] \<Rightarrow> False | c # _ \<Rightarrow> c = CHR ''-'');
          s2 = (case s1 of [] \<Rightarrow> [] | c # r \<Rightarrow> if c = CHR ''-'' \<or> c = CHR ''+'' then r else s1);
          ds = takeWhile isdigit s2;
          v = (if neg then - int (digits_val ds) else int (digits_val ds))
      in if ds = [] then Inl invalid_argument
         else if v < INT_MIN \<or> INT_MAX < v then Inl out_of_range
         else Inr (word_of_int v))"

subsection \<open>\<^verbatim>\<open>operator<<\<close> on an \<^verbatim>\<open>int\<close>\<close>

text \<open>
  \<^verbatim>\<open>outfile << c.id\<close> writes the decimal digits of the value, most significant first,
  after a minus sign when it is negative.
\<close>

definition digit_char :: "nat \<Rightarrow> char" where
  "digit_char d = ''0123456789'' ! d"

fun digits :: "nat \<Rightarrow> string" where
  "digits n = (if n < 10 then [digit_char n] else digits (n div 10) @ [digit_char (n mod 10)])"

declare digits.simps [simp del]

definition put_int :: "int32 \<Rightarrow> string" where
  "put_int i = (if sint i < 0 then CHR ''-'' # digits (nat (- sint i)) else digits (nat (sint i)))"

subsection \<open>\<^verbatim>\<open>std::string\<close> searches\<close>

text \<open>
  \<^verbatim>\<open>s.find_first_not_of(set)\<close> and \<^verbatim>\<open>s.find_last_not_of(set)\<close> return the position of
  the first, or last, character of \<open>s\<close> that is not in the set, and \<^verbatim>\<open>npos\<close> (here
  \<open>None\<close>) when there is none. \<^verbatim>\<open>s.substr(pos, n)\<close> with \<open>pos\<close> within \<open>s\<close> is at most
  \<open>n\<close> characters from \<open>pos\<close> on. \<^verbatim>\<open>s.find(q)\<close> returns the first position at which
  \<open>q\<close> occurs in \<open>s\<close>.
\<close>

definition find_first_not_of :: "string \<Rightarrow> string \<Rightarrow> nat option" where
  "find_first_not_of s chars =
     (let k = length (takeWhile (\<lambda>c. c \<in> set chars) s)
      in if k < length s then Some k else None)"

definition find_last_not_of :: "string \<Rightarrow> string \<Rightarrow> nat option" where
  "find_last_not_of s chars =
     (let k = length (takeWhile (\<lambda>c. c \<in> set chars) (rev s))
      in if k < length s then Some (length s - 1 - k) else None)"

definition substr :: "string \<Rightarrow> nat \<Rightarrow> nat \<Rightarrow> string" where
  "substr s pos n = take n (drop pos s)"

fun find_str :: "string \<Rightarrow> string \<Rightarrow> nat option" where
  "find_str [] q = (if q = [] then Some 0 else None)"
| "find_str (c # s) q =
     (if prefix q (c # s) then Some 0 else map_option Suc (find_str s q))"

section \<open>The program\<close>

subsection \<open>\<^verbatim>\<open>trim\<close>\<close>

text \<open>
  The characters trimmed are those of the literal \<^verbatim>\<open>" \t\n\r"\<close>. When \<open>start\<close> is
  found so is \<open>end\<close>, and \<open>start \<le> end\<close>. The branch for \<^verbatim>\<open>npos\<close> is what the unsigned
  arithmetic of the source would give: a count larger than any string.
\<close>

definition WHITESPACE :: string where
  "WHITESPACE = [CHR '' '', CHR 0x09, CHR 0x0A, CHR 0x0D]"

definition trim :: "string \<Rightarrow> string" where
  "trim s =
     (case find_first_not_of s WHITESPACE of
        None \<Rightarrow> []
      | Some start \<Rightarrow>
          (case find_last_not_of s WHITESPACE of
             None \<Rightarrow> drop start s
           | Some end \<Rightarrow> substr s start (end - start + 1)))"

subsection \<open>\<^verbatim>\<open>loadContacts\<close>\<close>

text \<open>
  The body of the loop makes a string stream of the line and calls \<^verbatim>\<open>std::getline\<close>
  on it four times with the delimiter \<^verbatim>\<open>'|'\<close>. Each target string is empty before a
  call that fails (the three fields of the fresh \<^verbatim>\<open>Contact\<close>, and \<^verbatim>\<open>line\<close> itself when
  the stream made of it is empty), so a failed call reads the empty string.
  \<^verbatim>\<open>std::stoi\<close> runs on the first field before the others are read; when it throws
  nothing of the line is kept.
\<close>

definition read_field :: "string \<Rightarrow> string \<times> string" where
  "read_field ss =
     (case getline ss CHR ''|'' of
        None \<Rightarrow> ([], ss)
      | Some (field, ss') \<Rightarrow> (field, ss'))"

definition parse_line :: "string \<Rightarrow> error + Contact" where
  "parse_line line =
     (let (f1, ss1) = read_field line
      in case stoi f1 of
           Inl err \<Rightarrow> Inl err
         | Inr i \<Rightarrow>
             (let (f2, ss2) = read_field ss1;
                  (f3, ss3) = read_field ss2;
                  (f4, ss4) = read_field ss3
              in Inr \<lparr>id' = i, name = f2, phone = f3, email = f4\<rparr>))"

text \<open>
  The loop \<^verbatim>\<open>while (std::getline(infile, line))\<close>, with the vector built so far. An
  exception leaves the loop and the program.
\<close>

function loadLoop :: "string \<Rightarrow> Contact list \<Rightarrow> error + Contact list" where
  "loadLoop infile cs =
     (case getline infile CHR 0x0A of
        None \<Rightarrow> Inr cs
      | Some (line, infile') \<Rightarrow>
          (case parse_line line of
             Inl err \<Rightarrow> Inl err
           | Inr c \<Rightarrow> loadLoop infile' (cs @ [c])))"
  by pat_completeness auto
termination
proof (relation "measure (\<lambda>(infile, cs). length infile)")
  show "wf (measure (\<lambda>(infile, cs). length infile))"
    by simp
next
  fix infile :: string and cs :: "Contact list" and x2 line infile' c
  assume "getline infile CHR 0x0A = Some x2" and "(line, infile') = x2"
  then have ne: "infile \<noteq> []" and r: "infile' = drop 1 (dropWhile (\<lambda>c. c \<noteq> CHR 0x0A) infile)"
    by (auto simp: getline_def split: if_splits)
  have "length (dropWhile (\<lambda>c. c \<noteq> CHR 0x0A) infile) \<le> length infile"
    by (rule length_dropWhile_le)
  with ne have "length infile' < length infile"
    unfolding r by (cases infile) auto
  then show "((infile', cs @ [c]), (infile, cs)) \<in> measure (\<lambda>(infile, cs). length infile)"
    by simp
qed

declare loadLoop.simps [simp del]

text \<open>
  \<open>decode\<close> is what the loop makes of the content of the file, starting from the cleared
  vector. A file that cannot be opened leaves the vector empty.
\<close>

definition decode :: "string \<Rightarrow> error + Contact list" where
  "decode infile = loadLoop infile []"

definition loadContacts :: "store \<Rightarrow> error + store" where
  "loadContacts st =
     (case DATA_FILE st of
        None \<Rightarrow> Inr (st\<lparr>contacts := []\<rparr>)
      | Some infile \<Rightarrow>
          (case decode infile of
             Inl err \<Rightarrow> Inl err
           | Inr cs \<Rightarrow> Inr (st\<lparr>contacts := cs\<rparr>)))"

text \<open>
  The lines that the calls of \<^verbatim>\<open>std::getline(infile, line)\<close> deliver when none of them
  throws, and the first field of a line, which is the string given to \<^verbatim>\<open>std::stoi\<close>.
\<close>

function file_lines :: "string \<Rightarrow> string list" where
  "file_lines infile =
     (case getline infile CHR 0x0A of
        None \<Rightarrow> []
      | Some (line, infile') \<Rightarrow> line # file_lines infile')"
  by pat_completeness auto
termination
proof (relation "measure length")
  show "wf (measure (length :: string \<Rightarrow> nat))"
    by simp
next
  fix infile :: string and x2 line infile'
  assume "getline infile CHR 0x0A = Some x2" and "(line, infile') = x2"
  then have ne: "infile \<noteq> []" and r: "infile' = drop 1 (dropWhile (\<lambda>c. c \<noteq> CHR 0x0A) infile)"
    by (auto simp: getline_def split: if_splits)
  have "length (dropWhile (\<lambda>c. c \<noteq> CHR 0x0A) infile) \<le> length infile"
    by (rule length_dropWhile_le)
  with ne have "length infile' < length infile"
    unfolding r by (cases infile) auto
  then show "(infile', infile) \<in> measure length"
    by simp
qed

declare file_lines.simps [simp del]

definition first_field :: "string \<Rightarrow> string" where
  "first_field line = fst (read_field line)"

subsection \<open>\<^verbatim>\<open>saveContacts\<close>\<close>

definition put_contact :: "Contact \<Rightarrow> string" where
  "put_contact c =
     put_int (id' c) @ ''|'' @ name c @ ''|'' @ phone c @ ''|'' @ email c @ [CHR 0x0A]"

definition encode :: "Contact list \<Rightarrow> string" where
  "encode cs = concat (map put_contact cs)"

definition saveContacts :: "store \<Rightarrow> store" where
  "saveContacts st = st\<lparr>DATA_FILE := Some (encode (contacts st))\<rparr>"

subsection \<open>\<^verbatim>\<open>nextId\<close> and \<^verbatim>\<open>addContact\<close>\<close>

text \<open>
  \<^verbatim>\<open>maxId + 1\<close> is an addition of \<^verbatim>\<open>int\<close>s. Here it wraps around at \<open>INT_MAX\<close>, as the
  machine does; C++ leaves that one case undefined, and the theorems on \<open>nextId\<close> are
  stated for a maximum below \<open>INT_MAX\<close>.
\<close>

definition maxId :: "Contact list \<Rightarrow> int32" where
  "maxId cs = foldl (\<lambda>m c. if m <s id' c then id' c else m) 0 cs"

definition nextId :: "store \<Rightarrow> int32" where
  "nextId st = maxId (contacts st) + 1"

text \<open>What an operation prints, apart from its prompts.\<close>

datatype message = Added int32 | Updated | Deleted | NotFound

definition addContact :: "string \<Rightarrow> string \<Rightarrow> string \<Rightarrow> store \<Rightarrow> store \<times> message" where
  "addContact n p e st =
     (let c = \<lparr>id' = nextId st, name = n, phone = p, email = e\<rparr>
      in (saveContacts (st\<lparr>contacts := contacts st @ [c]\<rparr>), Added (id' c)))"

subsection \<open>\<^verbatim>\<open>editContact\<close>\<close>

text \<open>
  The three lines typed at the prompts are \<open>a\<close>, \<open>b\<close> and \<open>e\<close>. The loop stops at the first
  Contact with the id.
\<close>

definition edit_fields :: "string \<Rightarrow> string \<Rightarrow> string \<Rightarrow> Contact \<Rightarrow> Contact" where
  "edit_fields a b e c =
     (let c1 = (if trim a \<noteq> [] then c\<lparr>name := a\<rparr> else c);
          c2 = (if trim b \<noteq> [] then c1\<lparr>phone := b\<rparr> else c1)
      in if trim e \<noteq> [] then c2\<lparr>email := e\<rparr> else c2)"

fun editLoop :: "int32 \<Rightarrow> string \<Rightarrow> string \<Rightarrow> string \<Rightarrow> Contact list \<Rightarrow> Contact list option" where
  "editLoop i a b e [] = None"
| "editLoop i a b e (c # cs) =
     (if id' c = i then Some (edit_fields a b e c # cs)
      else map_option ((#) c) (editLoop i a b e cs))"

definition editContact :: "int32 \<Rightarrow> string \<Rightarrow> string \<Rightarrow> string \<Rightarrow> store \<Rightarrow> store \<times> message" where
  "editContact i a b e st =
     (case editLoop i a b e (contacts st) of
        None \<Rightarrow> (st, NotFound)
      | Some cs \<Rightarrow> (saveContacts (st\<lparr>contacts := cs\<rparr>), Updated))"

subsection \<open>\<^verbatim>\<open>deleteContact\<close>\<close>

text \<open>
  \<^verbatim>\<open>std::remove_if\<close> moves the elements that do not satisfy the predicate to the front,
  in their order, and returns the end of that range; \<open>remove_if\<close> is that range. The
  elements behind it are erased when there are any, that is when something was removed.
\<close>

definition remove_if :: "('a \<Rightarrow> bool) \<Rightarrow> 'a list \<Rightarrow> 'a list" where
  "remove_if p xs = filter (\<lambda>x. \<not> p x) xs"

definition deleteContact :: "int32 \<Rightarrow> store \<Rightarrow> store \<times> message" where
  "deleteContact i st =
     (let kept = remove_if (\<lambda>c. id' c = i) (contacts st)
      in if length kept \<noteq> length (contacts st)
         then (saveContacts (st\<lparr>contacts := kept\<rparr>), Deleted)
         else (st, NotFound))"

subsection \<open>\<^verbatim>\<open>searchContacts\<close>\<close>

text \<open>The Contacts printed, in the order printed, for the line \<open>q\<close> typed at the prompt.\<close>

definition searchContacts :: "string \<Rightarrow> store \<Rightarrow> Contact list" where
  "searchContacts q st =
     (let q' = trim q
      in filter (\<lambda>c. find_str (name c) q' \<noteq> None \<or>
                     find_str (phone c) q' \<noteq> None \<or>
                     find_str (email c) q' \<noteq> None) (contacts st))"

subsection \<open>\<^verbatim>\<open>menu\<close>\<close>

text \<open>The choices of the menu that change the collection, with what is typed after them.\<close>

datatype operation =
    Add string string string
  | Edit int32 string string string
  | Delete int32

fun perform :: "store \<Rightarrow> operation \<Rightarrow> store" where
  "perform st (Add n p e) = fst (addContact n p e st)"
| "perform st (Edit i a b e) = fst (editContact i a b e st)"
| "perform st (Delete i) = fst (deleteContact i st)"

definition menu :: "store \<Rightarrow> operation list \<Rightarrow> store" where
  "menu st ops = foldl perform st ops"

text \<open>
  A run in which every \<^verbatim>\<open>nextId\<close> is computed without overflow: no Add is performed
  on a collection whose largest id is \<open>INT_MAX\<close>.
\<close>

fun adds_defined :: "store \<Rightarrow> operation list \<Rightarrow> bool" where
  "adds_defined st [] = True"
| "adds_defined st (Add n p e # ops) =
     (sint (maxId (contacts st)) < INT_MAX \<and> adds_defined (perform st (Add n p e)) ops)"
| "adds_defined st (x # ops) = adds_defined (perform st x) ops"

section \<open>Words of the specification\<close>

text \<open>
  A valid integer, as the specification uses the words of the id field of a line: an
  optional sign and then decimal digits, at least one, and nothing else, with a value
  that an \<^verbatim>\<open>int\<close> holds.
\<close>

definition spec_valid_integer :: "string \<Rightarrow> bool" where
  "spec_valid_integer s =
     (let neg = (case s of [] \<Rightarrow> False | c # _ \<Rightarrow> c = CHR ''-'');
          ds = (case s of [] \<Rightarrow> [] | c # r \<Rightarrow> if c = CHR ''-'' \<or> c = CHR ''+'' then r else s);
          v = (if neg then - int (digits_val ds) else int (digits_val ds))
      in ds \<noteq> [] \<and> list_all isdigit ds \<and> INT_MIN \<le> v \<and> v \<le> INT_MAX)"

text \<open>No field of the Contact contains the delimiter or a newline.\<close>

definition plain_fields :: "Contact \<Rightarrow> bool" where
  "plain_fields c =
     (\<forall>f \<in> {name c, phone c, email c}. CHR ''|'' \<notin> set f \<and> CHR 0x0A \<notin> set f)"

text \<open>The ids of a collection are unique.\<close>

definition unique_ids :: "Contact list \<Rightarrow> bool" where
  "unique_ids cs = distinct (map id' cs)"

section \<open>Decimal digits\<close>

lemma digit_char_code: "d < 10 \<Longrightarrow> of_char (digit_char d) = 48 + d"
proof -
  assume "d < 10"
  then have "d \<in> {0, 1, 2, 3, 4, 5, 6, 7, 8, 9}"
    by auto
  then show ?thesis
    by (auto simp: digit_char_def)
qed

lemma isdigit_digit_char: "d < 10 \<Longrightarrow> isdigit (digit_char d)"
  by (simp add: isdigit_def digit_char_code)

lemma digit_val_digit_char: "d < 10 \<Longrightarrow> digit_val (digit_char d) = d"
  by (simp add: digit_val_def digit_char_code)

lemma digits_isdigit: "c \<in> set (digits n) \<Longrightarrow> isdigit c"
proof (induction n arbitrary: c rule: digits.induct)
  case (1 n)
  show ?case
  proof (cases "n < 10")
    case True
    with "1.prems" show ?thesis
      by (simp add: digits.simps [of n] isdigit_digit_char)
  next
    case False
    with "1.prems" "1.IH" show ?thesis
      by (auto simp: digits.simps [of n] isdigit_digit_char)
  qed
qed

lemma digits_not_Nil: "digits n \<noteq> []"
  by (subst digits.simps) simp

lemma digits_val_snoc: "digits_val (ds @ [c]) = 10 * digits_val ds + digit_val c"
  by (simp add: digits_val_def)

lemma digits_val_digits: "digits_val (digits n) = n"
proof (induction n rule: digits.induct)
  case (1 n)
  show ?case
  proof (cases "n < 10")
    case True
    then show ?thesis
      by (simp add: digits.simps [of n] digits_val_def digit_val_digit_char)
  next
    case False
    with "1.IH" show ?thesis
      by (simp add: digits.simps [of n] digits_val_snoc digit_val_digit_char)
  qed
qed

lemma isdigit_plain:
  assumes "isdigit c"
  shows "c \<noteq> CHR ''|''" and "c \<noteq> CHR 0x0A" and "c \<noteq> CHR ''-''" and "c \<noteq> CHR ''+''"
    and "\<not> isspace c"
  using assms by (auto simp: isdigit_def isspace_def)

lemma takeWhile_all: "(\<And>c. c \<in> set xs \<Longrightarrow> P c) \<Longrightarrow> takeWhile P xs = xs"
  by simp

lemma stoi_unsigned:
  assumes "ds \<noteq> []" and "\<And>c. c \<in> set ds \<Longrightarrow> isdigit c"
  shows "stoi ds =
    (if INT_MAX < int (digits_val ds) then Inl out_of_range
     else Inr (word_of_int (int (digits_val ds))))"
proof -
  obtain c r where cr: "ds = c # r"
    using assms(1) by (cases ds) auto
  have c: "isdigit c"
    using assms(2) cr by simp
  have tw: "takeWhile isdigit ds = ds"
    using assms(2) by (rule takeWhile_all)
  have dw: "dropWhile isspace ds = ds"
    using cr isdigit_plain(5) [OF c] by simp
  have s2: "(case ds of [] \<Rightarrow> [] | c # r \<Rightarrow> if c = CHR ''-'' \<or> c = CHR ''+'' then r else ds) = ds"
    using cr isdigit_plain(3,4) [OF c] by simp
  have neg: "(case ds of [] \<Rightarrow> False | c # x \<Rightarrow> c = CHR ''-'') = False"
    using cr isdigit_plain(3) [OF c] by simp
  have lo: "\<not> int (digits_val ds) < INT_MIN"
    by (simp add: INT_MIN_def)
  show ?thesis
    unfolding stoi_def Let_def dw s2 neg tw
    using assms(1) lo by simp
qed

lemma stoi_minus:
  assumes "ds \<noteq> []" and "\<And>c. c \<in> set ds \<Longrightarrow> isdigit c"
  shows "stoi (CHR ''-'' # ds) =
    (if - int (digits_val ds) < INT_MIN then Inl out_of_range
     else Inr (word_of_int (- int (digits_val ds))))"
proof -
  have tw: "takeWhile isdigit ds = ds"
    using assms(2) by (rule takeWhile_all)
  have dw: "dropWhile isspace (CHR ''-'' # ds) = CHR ''-'' # ds"
    by (simp add: isspace_def)
  have hi: "\<not> INT_MAX < - int (digits_val ds)"
    by (simp add: INT_MAX_def)
  show ?thesis
    unfolding stoi_def Let_def dw
    using assms(1) hi by (simp add: tw)
qed

lemma stoi_plus:
  assumes "ds \<noteq> []" and "\<And>c. c \<in> set ds \<Longrightarrow> isdigit c"
  shows "stoi (CHR ''+'' # ds) =
    (if INT_MAX < int (digits_val ds) then Inl out_of_range
     else Inr (word_of_int (int (digits_val ds))))"
proof -
  have tw: "takeWhile isdigit ds = ds"
    using assms(2) by (rule takeWhile_all)
  have dw: "dropWhile isspace (CHR ''+'' # ds) = CHR ''+'' # ds"
    by (simp add: isspace_def)
  have lo: "\<not> int (digits_val ds) < INT_MIN"
    by (simp add: INT_MIN_def)
  show ?thesis
    unfolding stoi_def Let_def dw
    using assms(1) lo by (simp add: tw)
qed

lemma stoi_put_int: "stoi (put_int i) = Inr i"
proof (cases "sint i < 0")
  case True
  have "- (2 ^ 31) \<le> sint i"
    using sint_ge [of i] by simp
  with True have "\<not> - int (nat (- sint i)) < INT_MIN"
    by (simp add: INT_MIN_def)
  with True show ?thesis
    by (simp add: put_int_def stoi_minus digits_not_Nil digits_isdigit digits_val_digits)
next
  case False
  have "sint i < 2 ^ 31"
    using sint_lt [of i] by simp
  with False have "\<not> INT_MAX < int (nat (sint i))"
    by (simp add: INT_MAX_def)
  with False show ?thesis
    by (simp add: put_int_def stoi_unsigned digits_not_Nil digits_isdigit digits_val_digits)
qed

lemma put_int_plain:
  assumes "c \<in> set (put_int i)"
  shows "c \<noteq> CHR ''|'' \<and> c \<noteq> CHR 0x0A"
proof (cases "isdigit c")
  case True
  then show ?thesis
    using isdigit_plain(1,2) by simp
next
  case False
  with assms have "c = CHR ''-''"
    by (auto simp: put_int_def dest: digits_isdigit split: if_splits)
  then show ?thesis by simp
qed

section \<open>Reading fields and lines\<close>

lemma takeWhile_upto:
  assumes "d \<notin> set xs"
  shows "takeWhile (\<lambda>c. c \<noteq> d) (xs @ d # ys) = xs"
  using assms by (induction xs) auto

lemma dropWhile_upto:
  assumes "d \<notin> set xs"
  shows "dropWhile (\<lambda>c. c \<noteq> d) (xs @ d # ys) = d # ys"
  using assms by (induction xs) auto

lemma getline_delim:
  assumes "d \<notin> set xs"
  shows "getline (xs @ d # ys) d = Some (xs, ys)"
  using assms by (simp add: getline_def takeWhile_upto dropWhile_upto)

lemma getline_last:
  assumes "d \<notin> set xs" and "xs \<noteq> []"
  shows "getline xs d = Some (xs, [])"
proof -
  have dw: "dropWhile (\<lambda>c. c \<noteq> d) xs = []"
    using assms(1) by (induction xs) auto
  have tw: "takeWhile (\<lambda>c. c \<noteq> d) xs = xs"
    using assms(1) by (induction xs) auto
  show ?thesis
    unfolding getline_def dw tw using assms(2) by simp
qed

lemma read_field_delim:
  assumes "CHR ''|'' \<notin> set xs"
  shows "read_field (xs @ CHR ''|'' # ys) = (xs, ys)"
  using assms by (simp add: read_field_def getline_delim)

lemma read_field_last:
  assumes "CHR ''|'' \<notin> set xs"
  shows "read_field xs = (xs, [])"
proof (cases "xs = []")
  case True
  then show ?thesis
    by (simp add: read_field_def getline_def)
next
  case False
  with assms show ?thesis
    by (simp add: read_field_def getline_last)
qed

lemma first_field_eq: "first_field line = takeWhile (\<lambda>c. c \<noteq> CHR ''|'') line"
  by (simp add: first_field_def read_field_def getline_def)

lemma parse_line_Inl: "parse_line line = Inl err \<longleftrightarrow> stoi (first_field line) = Inl err"
  by (auto simp: parse_line_def first_field_def split: prod.splits sum.splits)

lemma parse_line_fields:
  assumes "CHR ''|'' \<notin> set f1" and "CHR ''|'' \<notin> set f2" and "CHR ''|'' \<notin> set f3"
    and "CHR ''|'' \<notin> set f4" and "stoi f1 = Inr i"
  shows "parse_line (f1 @ ''|'' @ f2 @ ''|'' @ f3 @ ''|'' @ f4) =
    Inr \<lparr>id' = i, name = f2, phone = f3, email = f4\<rparr>"
  using assms by (simp add: parse_line_def read_field_delim read_field_last)

lemma parse_line_put_contact:
  assumes "CHR ''|'' \<notin> set (name c)" and "CHR ''|'' \<notin> set (phone c)"
    and "CHR ''|'' \<notin> set (email c)"
  shows "parse_line (put_int (id' c) @ ''|'' @ name c @ ''|'' @ phone c @ ''|'' @ email c) = Inr c"
proof -
  have "CHR ''|'' \<notin> set (put_int (id' c))"
    using put_int_plain by blast
  from parse_line_fields [OF this assms stoi_put_int] show ?thesis
    by simp
qed

lemma loadLoop_Nil: "loadLoop [] cs = Inr cs"
  by (simp add: loadLoop.simps getline_def)

lemma loadLoop_line:
  assumes "CHR 0x0A \<notin> set line"
  shows "loadLoop (line @ CHR 0x0A # rest) cs =
    (case parse_line line of Inl err \<Rightarrow> Inl err | Inr c \<Rightarrow> loadLoop rest (cs @ [c]))"
  using assms by (subst loadLoop.simps) (simp add: getline_delim)

lemma loadLoop_put_contact:
  assumes "\<And>f. f \<in> {name c, phone c, email c} \<Longrightarrow> CHR ''|'' \<notin> set f \<and> CHR 0x0A \<notin> set f"
  shows "loadLoop (put_contact c @ rest) cs = loadLoop rest (cs @ [c])"
proof -
  let ?line = "put_int (id' c) @ ''|'' @ name c @ ''|'' @ phone c @ ''|'' @ email c"
  have nl: "CHR 0x0A \<notin> set ?line"
    using assms put_int_plain [of "CHR 0x0A" "id' c"] by auto
  have "put_contact c @ rest = ?line @ CHR 0x0A # rest"
    by (simp add: put_contact_def)
  then have "loadLoop (put_contact c @ rest) cs =
      (case parse_line ?line of Inl err \<Rightarrow> Inl err | Inr c \<Rightarrow> loadLoop rest (cs @ [c]))"
    using loadLoop_line [OF nl] by simp
  also have "parse_line ?line = Inr c"
    using assms by (intro parse_line_put_contact) auto
  finally show ?thesis
    by simp
qed

lemma loadLoop_encode:
  assumes "\<And>c. c \<in> set cs \<Longrightarrow> plain_fields c"
  shows "loadLoop (encode cs) acc = Inr (acc @ cs)"
  using assms
proof (induction cs arbitrary: acc)
  case Nil
  then show ?case
    by (simp add: encode_def loadLoop_Nil)
next
  case (Cons c cs)
  have "loadLoop (encode (c # cs)) acc = loadLoop (put_contact c @ encode cs) acc"
    by (simp add: encode_def)
  also have "\<dots> = loadLoop (encode cs) (acc @ [c])"
    using Cons.prems [of c] by (intro loadLoop_put_contact) (auto simp: plain_fields_def)
  also have "\<dots> = Inr ((acc @ [c]) @ cs)"
    using Cons.prems by (intro Cons.IH) simp
  finally show ?case
    by simp
qed

section \<open>The load loop, line by line\<close>

lemma file_lines_Nil: "file_lines [] = []"
  by (simp add: file_lines.simps getline_def)

lemma file_lines_line:
  assumes "CHR 0x0A \<notin> set line"
  shows "file_lines (line @ CHR 0x0A # rest) = line # file_lines rest"
  using assms by (subst file_lines.simps) (simp add: getline_delim)

lemma loadLoop_Inl:
  "loadLoop infile cs = Inl err \<Longrightarrow> \<exists>l \<in> set (file_lines infile). parse_line l = Inl err"
proof (induction infile cs rule: loadLoop.induct)
  case (1 infile cs)
  show ?case
  proof (cases "getline infile CHR 0x0A")
    case None
    with "1.prems" show ?thesis
      by (simp add: loadLoop.simps [of infile])
  next
    case (Some p)
    obtain line rest where p: "p = (line, rest)"
      by (cases p)
    have fl: "file_lines infile = line # file_lines rest"
      using Some p by (simp add: file_lines.simps [of infile])
    show ?thesis
    proof (cases "parse_line line")
      case (Inl e)
      with "1.prems" Some p have "e = err"
        by (simp add: loadLoop.simps [of infile])
      with Inl fl show ?thesis
        by simp
    next
      case (Inr c)
      with "1.prems" Some p have "loadLoop rest (cs @ [c]) = Inl err"
        by (simp add: loadLoop.simps [of infile])
      from "1.IH" [OF Some p [symmetric] Inr this] fl show ?thesis
        by simp
    qed
  qed
qed

lemma loadLoop_Inr:
  "loadLoop infile cs = Inr cs' \<Longrightarrow>
    \<exists>new. cs' = cs @ new \<and> list_all2 (\<lambda>l c. parse_line l = Inr c) (file_lines infile) new"
proof (induction infile cs rule: loadLoop.induct)
  case (1 infile cs)
  show ?case
  proof (cases "getline infile CHR 0x0A")
    case None
    with "1.prems" show ?thesis
      by (simp add: loadLoop.simps [of infile] file_lines.simps [of infile])
  next
    case (Some p)
    obtain line rest where p: "p = (line, rest)"
      by (cases p)
    have fl: "file_lines infile = line # file_lines rest"
      using Some p by (simp add: file_lines.simps [of infile])
    show ?thesis
    proof (cases "parse_line line")
      case (Inl e)
      with "1.prems" Some p show ?thesis
        by (simp add: loadLoop.simps [of infile])
    next
      case (Inr c)
      with "1.prems" Some p have "loadLoop rest (cs @ [c]) = Inr cs'"
        by (simp add: loadLoop.simps [of infile])
      from "1.IH" [OF Some p [symmetric] Inr this]
      obtain new where "cs' = (cs @ [c]) @ new"
        and "list_all2 (\<lambda>l c. parse_line l = Inr c) (file_lines rest) new"
        by blast
      with Inr fl have "cs' = cs @ (c # new) \<and>
          list_all2 (\<lambda>l c. parse_line l = Inr c) (file_lines infile) (c # new)"
        by simp
      then show ?thesis
        by blast
    qed
  qed
qed

lemma decode_fails_iff:
  "(\<exists>err. decode infile = Inl err) \<longleftrightarrow>
   (\<exists>l \<in> set (file_lines infile). \<exists>err. stoi (first_field l) = Inl err)"
proof
  assume "\<exists>err. decode infile = Inl err"
  then show "\<exists>l \<in> set (file_lines infile). \<exists>err. stoi (first_field l) = Inl err"
    unfolding decode_def by (blast dest: loadLoop_Inl parse_line_Inl [THEN iffD1])
next
  assume r: "\<exists>l \<in> set (file_lines infile). \<exists>err. stoi (first_field l) = Inl err"
  show "\<exists>err. decode infile = Inl err"
  proof (cases "decode infile")
    case (Inl e)
    then show ?thesis by blast
  next
    case (Inr cs)
    then obtain new where "list_all2 (\<lambda>l c. parse_line l = Inr c) (file_lines infile) new"
      unfolding decode_def by (auto dest: loadLoop_Inr)
    then have "\<forall>l \<in> set (file_lines infile). \<exists>c. parse_line l = Inr c"
      by (auto simp: list_all2_conv_all_nth in_set_conv_nth)
    with r show ?thesis
      by (metis parse_line_Inl sum.distinct(1))
  qed
qed

lemma decode_Inr:
  "decode infile = Inr cs \<Longrightarrow> list_all2 (\<lambda>l c. parse_line l = Inr c) (file_lines infile) cs"
  unfolding decode_def by (auto dest: loadLoop_Inr)

lemma stoi_empty: "stoi [] = Inl invalid_argument"
  by (simp add: stoi_def)

lemma spec_valid_integer_stoi:
  assumes "spec_valid_integer s"
  shows "\<exists>i. stoi s = Inr i"
proof -
  obtain c r where s: "s = c # r"
    using assms by (cases s) (auto simp: spec_valid_integer_def)
  show ?thesis
  proof (cases "c = CHR ''-''")
    case True
    with assms s have "r \<noteq> []" and "\<And>x. x \<in> set r \<Longrightarrow> isdigit x"
      and "\<not> - int (digits_val r) < INT_MIN"
      by (auto simp: spec_valid_integer_def Let_def list_all_iff)
    then show ?thesis
      using True s by (simp add: stoi_minus)
  next
    case False
    show ?thesis
    proof (cases "c = CHR ''+''")
      case True
      with assms s have "r \<noteq> []" and "\<And>x. x \<in> set r \<Longrightarrow> isdigit x"
        and "\<not> INT_MAX < int (digits_val r)"
        by (auto simp: spec_valid_integer_def Let_def list_all_iff)
      then show ?thesis
        using True s by (simp add: stoi_plus)
    next
      case plus: False
      with False assms s have "s \<noteq> []" and "\<And>x. x \<in> set s \<Longrightarrow> isdigit x"
        and "\<not> INT_MAX < int (digits_val s)"
        by (auto simp: spec_valid_integer_def Let_def list_all_iff)
      then show ?thesis
        by (simp add: stoi_unsigned)
    qed
  qed
qed

lemmas run_decode = decode_def loadLoop.simps getline_def parse_line_def read_field_def
  stoi_def isspace_def isdigit_def digits_val_def digit_val_def INT_MIN_def INT_MAX_def

section \<open>Editing and deleting\<close>

lemma edit_fields_blank:
  assumes "trim a = []" and "trim b = []" and "trim e = []"
  shows "edit_fields a b e c = c"
  using assms by (simp add: edit_fields_def)

lemma edit_fields_id [simp]: "id' (edit_fields a b e c) = id' c"
  by (simp add: edit_fields_def Let_def)

lemma editLoop_first:
  assumes "\<forall>x \<in> set pre. id' x \<noteq> i" and "id' c = i"
  shows "editLoop i a b e (pre @ c # post) = Some (pre @ edit_fields a b e c # post)"
  using assms by (induction pre) auto

lemma editLoop_None: "editLoop i a b e cs = None \<longleftrightarrow> (\<forall>c \<in> set cs. id' c \<noteq> i)"
  by (induction cs) auto

lemma editLoop_ids: "editLoop i a b e cs = Some cs' \<Longrightarrow> map id' cs' = map id' cs"
  by (induction cs arbitrary: cs') (auto split: if_splits)

lemma editLoop_blank:
  assumes "trim a = []" and "trim b = []" and "trim e = []" and "\<exists>c \<in> set cs. id' c = i"
  shows "editLoop i a b e cs = Some cs"
  using assms(4) by (induction cs) (auto simp: edit_fields_blank [OF assms(1-3)] editLoop_None)

lemma contacts_saveContacts [simp]: "contacts (saveContacts st) = contacts st"
  by (simp add: saveContacts_def)

lemma length_remove_if:
  "length (remove_if p xs) \<noteq> length xs \<longleftrightarrow> (\<exists>x \<in> set xs. p x)"
proof (cases "\<exists>x \<in> set xs. p x")
  case True
  then obtain x where "x \<in> set xs" and "\<not> \<not> p x"
    by blast
  then have "length (filter (\<lambda>x. \<not> p x) xs) < length xs"
    by (rule length_filter_less)
  with True show ?thesis
    by (simp add: remove_if_def)
next
  case False
  then have "filter (\<lambda>x. \<not> p x) xs = xs"
    by simp
  with False show ?thesis
    by (simp add: remove_if_def)
qed

lemmas run_trim = trim_def find_first_not_of_def find_last_not_of_def substr_def WHITESPACE_def

section \<open>Trimming and searching\<close>

lemma find_str_sublist: "find_str s q \<noteq> None \<longleftrightarrow> sublist q s"
  by (induction s) (auto simp: sublist_Cons_right)

lemma find_str_Nil: "find_str s [] = Some 0"
  by (cases s) simp_all

lemma trim_blank:
  assumes "set s \<subseteq> set WHITESPACE"
  shows "trim s = []"
proof -
  have tw: "takeWhile (\<lambda>c. c \<in> set WHITESPACE) s = s"
    using assms by (intro takeWhile_all) auto
  show ?thesis
    unfolding trim_def find_first_not_of_def tw by simp
qed

lemma trim_eq:
  "trim s = rev (dropWhile (\<lambda>c. c \<in> set WHITESPACE) (rev (dropWhile (\<lambda>c. c \<in> set WHITESPACE) s)))"
proof -
  let ?ws = "\<lambda>c. c \<in> set WHITESPACE"
  let ?k = "length (takeWhile ?ws s)"
  let ?t = "dropWhile ?ws s"
  show ?thesis
  proof (cases "?k < length s")
    case False
    then have "?k = length s"
      using length_takeWhile_le [of ?ws s] by simp
    then have t: "?t = []"
      using takeWhile_dropWhile_id [of ?ws s]
      by (metis append_eq_conv_conj drop_all order_refl)
    have ff: "find_first_not_of s WHITESPACE = None"
      using False by (simp add: find_first_not_of_def)
    show ?thesis
      unfolding trim_def ff t by simp
  next
    case True
    have dk: "drop ?k s = ?t"
      by (metis append_eq_conv_conj takeWhile_dropWhile_id)
    have lt: "length ?t = length s - ?k"
      using dk [symmetric] by simp
    have tne: "?t \<noteq> []"
    proof
      assume "?t = []"
      then have "length ?t = 0"
        by (simp only: list.size)
      with lt True show False
        by linarith
    qed
    then have hd: "\<not> ?ws (hd ?t)"
      by (rule hd_dropWhile)
    have "rev s = rev ?t @ rev (takeWhile ?ws s)"
      by (metis rev_append takeWhile_dropWhile_id)
    moreover have "\<exists>x \<in> set (rev ?t). \<not> ?ws x"
      using tne hd by (metis hd_in_set set_rev)
    ultimately have tw: "takeWhile ?ws (rev s) = takeWhile ?ws (rev ?t)"
      by (metis takeWhile_append1)
    let ?k2 = "length (takeWhile ?ws (rev ?t))"
    have k2: "?k2 < length ?t"
    proof -
      have "takeWhile ?ws (rev ?t) \<noteq> rev ?t"
        using \<open>\<exists>x \<in> set (rev ?t). \<not> ?ws x\<close> by (metis takeWhile_eq_all_conv)
      then have "?k2 \<noteq> length (rev ?t)"
        by (metis takeWhile_dropWhile_id append_eq_conv_conj take_all order_refl)
      with length_takeWhile_le [of ?ws "rev ?t"] show ?thesis
        by simp
    qed
    have "dropWhile ?ws (rev ?t) = drop ?k2 (rev ?t)"
      by (metis append_eq_conv_conj takeWhile_dropWhile_id)
    then have r: "rev (dropWhile ?ws (rev ?t)) = take (length ?t - ?k2) ?t"
      by (simp add: rev_drop)
    have "?k2 < length s"
      using k2 lt by linarith
    then have fl: "find_last_not_of s WHITESPACE = Some (length s - 1 - ?k2)"
      unfolding find_last_not_of_def tw by (simp add: Let_def)
    have ff: "find_first_not_of s WHITESPACE = Some ?k"
      using True by (simp add: find_first_not_of_def)
    have "length s - 1 - ?k2 - ?k + 1 = length ?t - ?k2"
      using k2 lt by simp
    then show ?thesis
      unfolding trim_def ff fl substr_def option.case dk r by simp
  qed
qed

section \<open>Ids\<close>

lemma maxId_foldl_max:
  "sint (foldl (\<lambda>m c. if m <s id' c then id' c else m) m0 cs) =
     foldl max (sint m0) (map (sint \<circ> id') cs)"
  by (induction cs arbitrary: m0) (simp_all add: word_sless_alt max_def)

lemma sint_maxId: "sint (maxId cs) = foldl max 0 (map (sint \<circ> id') cs)"
  by (simp add: maxId_def maxId_foldl_max)

lemma foldl_max_ge: "(a :: int) \<le> foldl max a xs"
proof (induction xs arbitrary: a)
  case Nil
  show ?case by simp
next
  case (Cons x xs)
  have "a \<le> max a x" by simp
  also have "\<dots> \<le> foldl max (max a x) xs" by (rule Cons.IH)
  finally show ?case by simp
qed

lemma foldl_max_ge_elem: "x \<in> set xs \<Longrightarrow> (x :: int) \<le> foldl max a xs"
proof (induction xs arbitrary: a)
  case Nil
  then show ?case by simp
next
  case (Cons y ys)
  show ?case
  proof (cases "x = y")
    case True
    have "x \<le> max a y" using True by simp
    also have "\<dots> \<le> foldl max (max a y) ys" by (rule foldl_max_ge)
    finally show ?thesis by simp
  next
    case False
    with Cons.prems have "x \<in> set ys" by simp
    from Cons.IH [OF this] show ?thesis by simp
  qed
qed

lemma maxId_ge: "c \<in> set cs \<Longrightarrow> sint (id' c) \<le> sint (maxId cs)"
  unfolding sint_maxId by (rule foldl_max_ge_elem) simp

lemma foldl_max_upto: "foldl max 0 [1..int k] = int k"
proof (induction k)
  case 0
  show ?case by simp
next
  case (Suc k)
  have "[1..int (Suc k)] = [1..int k] @ [int k + 1]"
    using upto_rec2 [of 1 "int (Suc k)"] by simp
  with Suc show ?case
    by simp
qed

lemma sint_Suc:
  fixes m :: int32
  assumes "sint m < INT_MAX"
  shows "sint (m + 1) = sint m + 1"
proof -
  have lo: "- (2 ^ 31) \<le> sint m + 1"
    using sint_ge [of m] by simp
  have hi: "sint m + 1 < 2 ^ 31"
    using assms by (simp add: INT_MAX_def)
  have "sint (m + 1) = signed_take_bit 31 (sint m + sint (1 :: int32))"
    using sint_word_ariths(1) [of m 1] by simp
  also have "\<dots> = signed_take_bit 31 (sint m + 1)"
    by simp
  also have "\<dots> = sint m + 1"
    using lo hi by (intro signed_take_bit_int_eq_self) simp_all
  finally show ?thesis .
qed

lemma sint_nextId:
  assumes "sint (maxId (contacts st)) < INT_MAX"
  shows "sint (nextId st) = sint (maxId (contacts st)) + 1"
  using sint_Suc [OF assms] by (simp add: nextId_def)

lemma nextId_fresh:
  assumes "sint (maxId (contacts st)) < INT_MAX"
  shows "nextId st \<notin> id' ` set (contacts st)"
proof
  assume "nextId st \<in> id' ` set (contacts st)"
  then obtain c where "c \<in> set (contacts st)" and "id' c = nextId st"
    by auto
  with maxId_ge [of c "contacts st"] sint_nextId [OF assms] show False
    by simp
qed

lemma contacts_addContact:
  "contacts (fst (addContact n p e st)) =
     contacts st @ [\<lparr>id' = nextId st, name = n, phone = p, email = e\<rparr>]"
  by (simp add: addContact_def Let_def)

lemma menu_snoc: "menu st (ops @ [x]) = perform (menu st ops) x"
  by (simp add: menu_def)

lemma menu_Cons: "menu st (x # ops) = menu (perform st x) ops"
  by (simp add: menu_def)

lemma perform_unique:
  assumes "unique_ids (contacts st)"
    and "case x of Add n p e \<Rightarrow> sint (maxId (contacts st)) < INT_MAX | _ \<Rightarrow> True"
  shows "unique_ids (contacts (perform st x))"
proof (cases x)
  case (Add n p e)
  with assms(2) have "nextId st \<notin> id' ` set (contacts st)"
    by (simp add: nextId_fresh)
  with assms(1) Add show ?thesis
    by (simp add: unique_ids_def contacts_addContact)
next
  case (Edit i a b e)
  show ?thesis
  proof (cases "editLoop i a b e (contacts st)")
    case None
    with assms(1) Edit show ?thesis
      by (simp add: editContact_def)
  next
    case (Some cs)
    with editLoop_ids [OF Some] assms(1) Edit show ?thesis
      by (simp add: editContact_def unique_ids_def)
  qed
next
  case (Delete i)
  have "distinct (map id' (filter (\<lambda>c. id' c \<noteq> i) (contacts st)))"
    using assms(1) by (simp add: unique_ids_def distinct_map_filter)
  with assms(1) Delete show ?thesis
    by (simp add: deleteContact_def Let_def remove_if_def unique_ids_def)
qed

lemma menu_unique:
  assumes "unique_ids (contacts st)" and "adds_defined st ops"
  shows "unique_ids (contacts (menu st ops))"
  using assms
proof (induction ops arbitrary: st)
  case Nil
  then show ?case
    by (simp add: menu_def)
next
  case (Cons x ops)
  have d: "case x of Add n p e \<Rightarrow> sint (maxId (contacts st)) < INT_MAX | _ \<Rightarrow> True"
    using Cons.prems(2) by (cases x) simp_all
  have r: "adds_defined (perform st x) ops"
    using Cons.prems(2) by (cases x) simp_all
  from Cons.IH [OF perform_unique [OF Cons.prems(1) d] r] show ?case
    by (simp add: menu_Cons)
qed

lemma parse_line_id: "parse_line l = Inr c \<Longrightarrow> stoi (first_field l) = Inr (id' c)"
  by (auto simp: parse_line_def first_field_def split: prod.splits sum.splits)

lemma decode_ids:
  assumes "decode infile = Inr cs"
  shows "map (\<lambda>c. Inr (id' c)) cs = map (\<lambda>l. stoi (first_field l)) (file_lines infile)"
proof -
  have "list_all2 (\<lambda>l c. stoi (first_field l) = Inr (id' c)) (file_lines infile) cs"
    using decode_Inr [OF assms] by (rule list_all2_mono) (rule parse_line_id)
  then show ?thesis
    by (induction rule: list_all2_induct) simp_all
qed

lemma foldl_max_Max: "foldl max (a :: int) xs = Max (insert a (set xs))"
proof -
  have "foldl max a xs = fold max xs a"
    by (simp add: foldl_conv_fold max.commute)
  also have "\<dots> = Max (set (a # xs))"
    by (simp only: Max.set_eq_fold)
  finally show ?thesis
    by simp
qed

section \<open>A line within a file\<close>

lemma loadLoop_encode_append:
  assumes "\<And>c. c \<in> set cs \<Longrightarrow> plain_fields c"
  shows "loadLoop (encode cs @ rest) acc = loadLoop rest (acc @ cs)"
  using assms
proof (induction cs arbitrary: acc)
  case Nil
  show ?case
    by (simp add: encode_def)
next
  case (Cons c cs)
  have "loadLoop (encode (c # cs) @ rest) acc = loadLoop (put_contact c @ encode cs @ rest) acc"
    by (simp add: encode_def)
  also have "\<dots> = loadLoop (encode cs @ rest) (acc @ [c])"
    using Cons.prems [of c] by (intro loadLoop_put_contact) (auto simp: plain_fields_def)
  also have "\<dots> = loadLoop rest ((acc @ [c]) @ cs)"
    using Cons.prems by (intro Cons.IH) simp
  finally show ?case
    by simp
qed

lemma loadLoop_last_line:
  assumes "CHR 0x0A \<notin> set line" and "line \<noteq> []"
  shows "loadLoop line cs =
    (case parse_line line of Inl err \<Rightarrow> Inl err | Inr c \<Rightarrow> Inr (cs @ [c]))"
  using assms
  by (subst loadLoop.simps) (simp add: getline_last loadLoop_Nil split: sum.splits)

lemma parsed_line_loads:
  assumes "parse_line line = Inr c" and "CHR 0x0A \<notin> set line"
    and "\<forall>x \<in> set pre. plain_fields x" and "\<forall>x \<in> set post. plain_fields x"
  shows "decode line = Inr [c]" and "decode (line @ [CHR 0x0A]) = Inr [c]"
    and "decode (encode pre @ line @ CHR 0x0A # encode post) = Inr (pre @ c # post)"
proof -
  have ne: "line \<noteq> []"
  proof
    assume "line = []"
    with assms(1) have "stoi (first_field []) = Inr (id' c)"
      by (simp add: parse_line_id)
    then show False
      by (simp add: first_field_eq stoi_empty)
  qed
  show "decode line = Inr [c]"
    using loadLoop_last_line [OF assms(2) ne, of "[]"] assms(1) by (simp add: decode_def)
  show "decode (line @ [CHR 0x0A]) = Inr [c]"
    using loadLoop_line [OF assms(2), of "[]" "[]"] assms(1) by (simp add: decode_def loadLoop_Nil)
  have "decode (encode pre @ line @ CHR 0x0A # encode post) =
      loadLoop (line @ CHR 0x0A # encode post) pre"
    using loadLoop_encode_append [of pre "line @ CHR 0x0A # encode post" "[]"] assms(3)
    by (simp add: decode_def)
  also have "\<dots> = loadLoop (encode post) (pre @ [c])"
    using loadLoop_line [OF assms(2), of "encode post" pre] assms(1) by simp
  also have "\<dots> = Inr ((pre @ [c]) @ post)"
    using assms(4) by (intro loadLoop_encode) simp
  finally show "decode (encode pre @ line @ CHR 0x0A # encode post) = Inr (pre @ c # post)"
    by simp
qed

section \<open>The claims\<close>

text \<open>
  C1. For every sequence of Contacts in which no field contains the delimiter \<^verbatim>\<open>|\<close> or a
  newline, decoding the text that encoding writes gives back the same sequence: the same
  ids, the same fields, the same order.
\<close>

theorem encode_decode_roundtrip:
  assumes "\<forall>c \<in> set cs. plain_fields c"
  shows "decode (encode cs) = Inr cs"
  using loadLoop_encode [of cs "[]"] assms by (simp add: decode_def)

theorem encode_decode_roundtrip_witness:
  "plain_fields \<lparr>id' = 1, name = ''Ana'', phone = ''555-1111'', email = ''ana@x.com''\<rparr> \<and>
   plain_fields \<lparr>id' = - 7, name = [], phone = ''0 1'', email = []\<rparr> \<and>
   encode [\<lparr>id' = 1, name = ''Ana'', phone = ''555-1111'', email = ''ana@x.com''\<rparr>,
           \<lparr>id' = - 7, name = [], phone = ''0 1'', email = []\<rparr>]
     = ''1|Ana|555-1111|ana@x.com\<newline>-7||0 1|\<newline>'' \<and>
   decode ''1|Ana|555-1111|ana@x.com\<newline>-7||0 1|\<newline>''
     = Inr [\<lparr>id' = 1, name = ''Ana'', phone = ''555-1111'', email = ''ana@x.com''\<rparr>,
            \<lparr>id' = - 7, name = [], phone = ''0 1'', email = []\<rparr>]"
proof -
  let ?a = "\<lparr>id' = 1, name = ''Ana'', phone = ''555-1111'', email = ''ana@x.com''\<rparr>"
  let ?b = "\<lparr>id' = - 7, name = [], phone = ''0 1'', email = []\<rparr>"
  have a: "plain_fields ?a" and b: "plain_fields ?b"
    by (simp_all add: plain_fields_def)
  then have h: "\<forall>c \<in> set [?a, ?b]. plain_fields c"
    by simp
  have e: "encode [?a, ?b] = ''1|Ana|555-1111|ana@x.com\<newline>-7||0 1|\<newline>''"
    by (simp add: encode_def put_contact_def put_int_def digits.simps digit_char_def)
  from encode_decode_roundtrip [OF h] a b e show ?thesis
    by simp
qed

text \<open>
  C2. Starting from the empty collection, where \<^verbatim>\<open>nextId\<close> is 1, the Contacts that a
  sequence of Adds creates have the ids 1, 2, 3 and so on, in the order of their
  creation, each one more than the one before, with the fields typed for them. The
  sequence has fewer than \<open>2 ^ 31\<close> Adds, so that every id is at most \<open>INT_MAX\<close> and no
  \<^verbatim>\<open>maxId + 1\<close> overflows. The rule behind it: on any collection \<open>s\<close> whose largest id is
  below \<open>INT_MAX\<close>, \<^verbatim>\<open>nextId\<close> is one more than the largest of 0 and the ids present.
\<close>

theorem add_ids_count_up:
  assumes "contacts st = []" and "length inputs < 2 ^ 31"
  shows "nextId st = 1 \<and>
    map (\<lambda>c. sint (id' c)) (contacts (menu st (map (\<lambda>(n, p, e). Add n p e) inputs))) =
      [1..int (length inputs)] \<and>
    map (\<lambda>c. (name c, phone c, email c))
      (contacts (menu st (map (\<lambda>(n, p, e). Add n p e) inputs))) = inputs \<and>
    (sint (maxId (contacts s)) < INT_MAX \<longrightarrow>
      sint (nextId s) = Max (insert 0 ((\<lambda>c. sint (id' c)) ` set (contacts s))) + 1)"
proof -
  have rule: "sint (nextId s) = Max (insert 0 ((\<lambda>c. sint (id' c)) ` set (contacts s))) + 1"
    if "sint (maxId (contacts s)) < INT_MAX"
    using sint_nextId [OF that] by (simp add: sint_maxId foldl_max_Max comp_def)
  have "nextId st = 1 \<and>
    map (\<lambda>c. sint (id' c)) (contacts (menu st (map (\<lambda>(n, p, e). Add n p e) inputs))) =
      [1..int (length inputs)] \<and>
    map (\<lambda>c. (name c, phone c, email c))
      (contacts (menu st (map (\<lambda>(n, p, e). Add n p e) inputs))) = inputs"
    using assms(2)
  proof (induction inputs rule: rev_induct)
    case Nil
    show ?case
      using assms(1) by (simp add: menu_def nextId_def maxId_def)
  next
    case (snoc x xs)
    obtain n p e where x: "x = (n, p, e)"
      by (cases x)
    let ?st = "menu st (map (\<lambda>(n, p, e). Add n p e) xs)"
    have "length xs < 2 ^ 31"
      using snoc.prems by simp
    from snoc.IH [OF this]
    have one: "nextId st = 1"
      and ih: "map (\<lambda>c. sint (id' c)) (contacts ?st) = [1..int (length xs)]"
      and fs: "map (\<lambda>c. (name c, phone c, email c)) (contacts ?st) = xs"
      by blast+
    have m: "sint (maxId (contacts ?st)) = int (length xs)"
      unfolding sint_maxId comp_def ih by (rule foldl_max_upto)
    have "int (length xs) < INT_MAX"
      using snoc.prems by (simp add: INT_MAX_def)
    with m have nx: "sint (nextId ?st) = int (length xs) + 1"
      by (simp add: sint_nextId)
    have up: "[1..int (length (xs @ [x]))] = [1..int (length xs)] @ [int (length xs) + 1]"
      using upto_rec2 [of 1 "int (length (xs @ [x]))"] by simp
    have c: "contacts (menu st (map (\<lambda>(n, p, e). Add n p e) (xs @ [x]))) =
        contacts ?st @ [\<lparr>id' = nextId ?st, name = n, phone = p, email = e\<rparr>]"
      by (simp add: x menu_snoc contacts_addContact)
    show ?case
      unfolding c up using one ih fs nx x by simp
  qed
  with rule show ?thesis
    by blast
qed

theorem add_ids_count_up_witness:
  "contacts \<lparr>contacts = [], DATA_FILE = None\<rparr> = [] \<and>
   length [(''Ana'', ''555-1111'', ''ana@x.com''), (''Bo'', ''2'', []), (''Cy'', [], [])] < 2 ^ 31 \<and>
   contacts (menu \<lparr>contacts = [], DATA_FILE = None\<rparr>
      [Add ''Ana'' ''555-1111'' ''ana@x.com'', Add ''Bo'' ''2'' [], Add ''Cy'' [] []]) =
     [\<lparr>id' = 1, name = ''Ana'', phone = ''555-1111'', email = ''ana@x.com''\<rparr>,
      \<lparr>id' = 2, name = ''Bo'', phone = ''2'', email = []\<rparr>,
      \<lparr>id' = 3, name = ''Cy'', phone = [], email = []\<rparr>] \<and>
   map (\<lambda>c. sint (id' c)) (contacts (menu \<lparr>contacts = [], DATA_FILE = None\<rparr>
      [Add ''Ana'' ''555-1111'' ''ana@x.com'', Add ''Bo'' ''2'' [], Add ''Cy'' [] []])) = [1, 2, 3]"
proof -
  let ?st = "\<lparr>contacts = [], DATA_FILE = None\<rparr>"
  let ?inputs = "[(''Ana'', ''555-1111'', ''ana@x.com''), (''Bo'', ''2'', []), (''Cy'', [], [])]"
  have h1: "contacts ?st = []"
    by simp
  have h2: "length ?inputs < 2 ^ 31"
    by simp
  have u: "[1..int (length ?inputs)] = [1, 2, 3]"
    by (simp add: upto.simps)
  have e: "contacts (menu ?st
      [Add ''Ana'' ''555-1111'' ''ana@x.com'', Add ''Bo'' ''2'' [], Add ''Cy'' [] []]) =
     [\<lparr>id' = 1, name = ''Ana'', phone = ''555-1111'', email = ''ana@x.com''\<rparr>,
      \<lparr>id' = 2, name = ''Bo'', phone = ''2'', email = []\<rparr>,
      \<lparr>id' = 3, name = ''Cy'', phone = [], email = []\<rparr>]"
    by (simp add: menu_def addContact_def nextId_def maxId_def word_sless_alt)
  from add_ids_count_up [OF h1 h2, THEN conjunct2, THEN conjunct1] e show ?thesis
    unfolding u by simp
qed

text \<open>
  C3, as the code has it. \<open>decode\<close> processes every line of its input, the empty ones too:
  an empty line has an empty id field, on which \<^verbatim>\<open>std::stoi\<close> throws, so decoding a text
  with an empty line fails and no Contacts are produced. When \<open>decode\<close> succeeds the text
  has no empty line and every line has given exactly one Contact.
\<close>

theorem decode_empty_line_fails:
  "([] \<in> set (file_lines infile) \<longrightarrow> (\<exists>err. decode infile = Inl err)) \<and>
   (decode infile = Inr cs \<longrightarrow>
      [] \<notin> set (file_lines infile) \<and> length cs = length (file_lines infile))"
proof -
  have a: "\<exists>err. decode infile = Inl err" if "[] \<in> set (file_lines infile)"
  proof -
    have "stoi (first_field []) = Inl invalid_argument"
      by (simp add: first_field_eq stoi_empty)
    with that show ?thesis
      unfolding decode_fails_iff by blast
  qed
  have b: "length cs = length (file_lines infile)" if "decode infile = Inr cs"
    using decode_Inr [OF that] by (simp add: list_all2_lengthD)
  from a b show ?thesis
    by auto
qed

theorem decode_empty_line_fails_witness:
  "[] \<in> set (file_lines ''1|a|b|c\<newline>\<newline>2|d|e|f\<newline>'') \<and>
   (\<exists>err. decode ''1|a|b|c\<newline>\<newline>2|d|e|f\<newline>'' = Inl err) \<and>
   decode ''1|a|b|c\<newline>2|d|e|f\<newline>'' =
     Inr [\<lparr>id' = 1, name = ''a'', phone = ''b'', email = ''c''\<rparr>,
          \<lparr>id' = 2, name = ''d'', phone = ''e'', email = ''f''\<rparr>] \<and>
   [] \<notin> set (file_lines ''1|a|b|c\<newline>2|d|e|f\<newline>'') \<and>
   length [\<lparr>id' = 1, name = ''a'', phone = ''b'', email = ''c''\<rparr>,
           \<lparr>id' = 2, name = ''d'', phone = ''e'', email = ''f''\<rparr>] =
     length (file_lines ''1|a|b|c\<newline>2|d|e|f\<newline>'')"
proof -
  have l: "[] \<in> set (file_lines ''1|a|b|c\<newline>\<newline>2|d|e|f\<newline>'')"
    by (simp add: file_lines.simps getline_def)
  have d: "decode ''1|a|b|c\<newline>2|d|e|f\<newline>'' =
     Inr [\<lparr>id' = 1, name = ''a'', phone = ''b'', email = ''c''\<rparr>,
          \<lparr>id' = 2, name = ''d'', phone = ''e'', email = ''f''\<rparr>]"
    by (simp add: run_decode)
  from decode_empty_line_fails [of "''1|a|b|c\<newline>\<newline>2|d|e|f\<newline>''"] l
    decode_empty_line_fails [of "''1|a|b|c\<newline>2|d|e|f\<newline>''", THEN conjunct2, rule_format, OF d] d
  show ?thesis
    by simp
qed

text \<open>
  C3, as it is stated, fails: with an empty line between two records the load fails, and
  without it the same two records load.
\<close>

theorem decode_empty_line_counterexample:
  "decode ''1|a|b|c\<newline>\<newline>2|d|e|f\<newline>'' = Inl invalid_argument \<and>
   decode ''1|a|b|c\<newline>2|d|e|f\<newline>'' =
     Inr [\<lparr>id' = 1, name = ''a'', phone = ''b'', email = ''c''\<rparr>,
          \<lparr>id' = 2, name = ''d'', phone = ''e'', email = ''f''\<rparr>]"
  by (simp add: run_decode)

text \<open>
  C4, as the code has it. \<open>decode\<close> fails if and only if \<^verbatim>\<open>std::stoi\<close> throws on the
  first \<^verbatim>\<open>|\<close>-delimited field of some line, empty lines included: that is when the field,
  after leading white space and an optional sign, does not go on with a digit, or when
  the number read is outside \<^verbatim>\<open>int\<close>. What follows the digits is ignored. The failure is
  that of the whole load, which then yields no Contacts, and \<open>decode\<close> succeeds, with one
  Contact a line, on every text whose lines all have a valid integer as their id field.
\<close>

theorem decode_fails_iff_stoi_throws:
  "((\<exists>err. decode infile = Inl err) \<longleftrightarrow>
      (\<exists>l \<in> set (file_lines infile). \<exists>err. stoi (first_field l) = Inl err)) \<and>
   ((\<forall>l \<in> set (file_lines infile). spec_valid_integer (first_field l)) \<longrightarrow>
      (\<exists>cs. decode infile = Inr cs \<and> length cs = length (file_lines infile)))"
proof -
  have "\<exists>cs. decode infile = Inr cs \<and> length cs = length (file_lines infile)"
    if v: "\<forall>l \<in> set (file_lines infile). spec_valid_integer (first_field l)"
  proof (cases "decode infile")
    case (Inl err)
    then obtain l err' where "l \<in> set (file_lines infile)" and "stoi (first_field l) = Inl err'"
      using decode_fails_iff [of infile] by blast
    with v spec_valid_integer_stoi [of "first_field l"] show ?thesis
      by auto
  next
    case (Inr cs)
    with decode_Inr [OF Inr] show ?thesis
      by (simp add: list_all2_lengthD)
  qed
  with decode_fails_iff [of infile] show ?thesis
    by blast
qed

theorem decode_fails_iff_stoi_throws_witness:
  "file_lines ''1|a|b|c\<newline>x|d|e|f\<newline>'' = [''1|a|b|c'', ''x|d|e|f''] \<and>
   stoi (first_field ''x|d|e|f'') = Inl invalid_argument \<and>
   (\<exists>err. decode ''1|a|b|c\<newline>x|d|e|f\<newline>'' = Inl err) \<and>
   file_lines ''-12|a|b|c\<newline>'' = [''-12|a|b|c''] \<and>
   spec_valid_integer (first_field ''-12|a|b|c'') \<and>
   (\<exists>cs. decode ''-12|a|b|c\<newline>'' = Inr cs \<and> length cs = length (file_lines ''-12|a|b|c\<newline>''))"
proof -
  have l1: "file_lines ''1|a|b|c\<newline>x|d|e|f\<newline>'' = [''1|a|b|c'', ''x|d|e|f'']"
    by (simp add: file_lines.simps getline_def)
  have s1: "stoi (first_field ''x|d|e|f'') = Inl invalid_argument"
    by (simp add: first_field_eq stoi_def isspace_def isdigit_def)
  have l2: "file_lines ''-12|a|b|c\<newline>'' = [''-12|a|b|c'']"
    by (simp add: file_lines.simps getline_def)
  have s2: "spec_valid_integer (first_field ''-12|a|b|c'')"
    by (simp add: first_field_eq spec_valid_integer_def isdigit_def digits_val_def digit_val_def
        INT_MIN_def INT_MAX_def)
  have "\<exists>err. decode ''1|a|b|c\<newline>x|d|e|f\<newline>'' = Inl err"
    using decode_fails_iff_stoi_throws [of "''1|a|b|c\<newline>x|d|e|f\<newline>''"] l1 s1 by simp
  moreover have "\<exists>cs. decode ''-12|a|b|c\<newline>'' = Inr cs \<and>
      length cs = length (file_lines ''-12|a|b|c\<newline>'')"
    using decode_fails_iff_stoi_throws [of "''-12|a|b|c\<newline>''"] l2 s2 by simp
  ultimately show ?thesis
    using l1 s1 l2 s2 by simp
qed

text \<open>
  C4, as it is stated, fails: the first field of the only line of this text is \<^verbatim>\<open>7up\<close>,
  which is not a valid integer, and the text loads, with the id 7.
\<close>

theorem decode_lenient_id_counterexample:
  "file_lines ''7up|a|b|c\<newline>'' = [''7up|a|b|c''] \<and>
   first_field ''7up|a|b|c'' = ''7up'' \<and>
   \<not> spec_valid_integer ''7up'' \<and>
   decode ''7up|a|b|c\<newline>'' = Inr [\<lparr>id' = 7, name = ''a'', phone = ''b'', email = ''c''\<rparr>]"
proof -
  have "file_lines ''7up|a|b|c\<newline>'' = [''7up|a|b|c'']"
    by (simp add: file_lines.simps getline_def)
  moreover have "first_field ''7up|a|b|c'' = ''7up''"
    by (simp add: first_field_eq)
  moreover have "\<not> spec_valid_integer ''7up''"
    by (simp add: spec_valid_integer_def isdigit_def)
  moreover have "decode ''7up|a|b|c\<newline>'' =
      Inr [\<lparr>id' = 7, name = ''a'', phone = ''b'', email = ''c''\<rparr>]"
    by (simp add: run_decode)
  ultimately show ?thesis
    by simp
qed

text \<open>
  C5. When \<^verbatim>\<open>deleteContact\<close> succeeds, which it does exactly when some Contact has the
  id, the collection is afterwards the former one without the Contacts of that id: none
  with the id is left, and the others are all there, unchanged and in their order.
\<close>

theorem delete_removes_id:
  "(snd (deleteContact i st) = Deleted \<longleftrightarrow> (\<exists>c \<in> set (contacts st). id' c = i)) \<and>
   (snd (deleteContact i st) = Deleted \<longrightarrow>
      (\<forall>c \<in> set (contacts (fst (deleteContact i st))). id' c \<noteq> i) \<and>
      contacts (fst (deleteContact i st)) = filter (\<lambda>c. id' c \<noteq> i) (contacts st))"
  using length_remove_if [of "\<lambda>c. id' c = i" "contacts st"]
  by (auto simp: deleteContact_def Let_def remove_if_def)

theorem delete_removes_id_witness:
  "snd (deleteContact 1 \<lparr>contacts = [\<lparr>id' = 1, name = ''Ana'', phone = ''1'', email = ''a@x''\<rparr>,
                                      \<lparr>id' = 2, name = ''Bo'', phone = ''2'', email = ''b@x''\<rparr>],
                          DATA_FILE = None\<rparr>) = Deleted \<and>
   contacts (fst (deleteContact 1 \<lparr>contacts = [\<lparr>id' = 1, name = ''Ana'', phone = ''1'', email = ''a@x''\<rparr>,
                                      \<lparr>id' = 2, name = ''Bo'', phone = ''2'', email = ''b@x''\<rparr>],
                          DATA_FILE = None\<rparr>)) = [\<lparr>id' = 2, name = ''Bo'', phone = ''2'', email = ''b@x''\<rparr>]"
proof -
  let ?st = "\<lparr>contacts = [\<lparr>id' = 1, name = ''Ana'', phone = ''1'', email = ''a@x''\<rparr>,
                           \<lparr>id' = 2, name = ''Bo'', phone = ''2'', email = ''b@x''\<rparr>],
               DATA_FILE = None\<rparr>"
  have m: "\<exists>c \<in> set (contacts ?st). id' c = 1"
    by simp
  from delete_removes_id [of 1 ?st] m show ?thesis
    by simp
qed

text \<open>
  C6. \<^verbatim>\<open>searchContacts\<close> prints, in the order of the collection, exactly the Contacts
  whose name, phone or email contains the query with the white space around it trimmed
  off, as a contiguous run of the same characters. A query of white space only, or an
  empty one, prints the whole collection.
\<close>

theorem search_finds_substrings:
  "searchContacts q st =
     filter (\<lambda>c. sublist (trim q) (name c) \<or> sublist (trim q) (phone c) \<or>
                 sublist (trim q) (email c)) (contacts st) \<and>
   trim q = rev (dropWhile (\<lambda>c. c \<in> set WHITESPACE)
     (rev (dropWhile (\<lambda>c. c \<in> set WHITESPACE) q))) \<and>
   (set q \<subseteq> set WHITESPACE \<longrightarrow> searchContacts q st = contacts st)"
proof -
  have a: "searchContacts q st =
     filter (\<lambda>c. sublist (trim q) (name c) \<or> sublist (trim q) (phone c) \<or>
                 sublist (trim q) (email c)) (contacts st)"
    unfolding searchContacts_def Let_def find_str_sublist ..
  have "searchContacts q st = contacts st" if "set q \<subseteq> set WHITESPACE"
    using trim_blank [OF that] by (simp add: a)
  with a trim_eq [of q] show ?thesis
    by blast
qed

theorem search_finds_substrings_witness:
  "set '' '' \<subseteq> set WHITESPACE \<and>
   searchContacts '' ''
     \<lparr>contacts = [\<lparr>id' = 1, name = ''Ana'', phone = ''555-1111'', email = ''ana@x.com''\<rparr>,
                  \<lparr>id' = 2, name = ''Bo'', phone = ''555-2222'', email = []\<rparr>],
      DATA_FILE = None\<rparr> =
     [\<lparr>id' = 1, name = ''Ana'', phone = ''555-1111'', email = ''ana@x.com''\<rparr>,
      \<lparr>id' = 2, name = ''Bo'', phone = ''555-2222'', email = []\<rparr>] \<and>
   trim '' An '' = ''An'' \<and>
   searchContacts '' An ''
     \<lparr>contacts = [\<lparr>id' = 1, name = ''Ana'', phone = ''555-1111'', email = ''ana@x.com''\<rparr>,
                  \<lparr>id' = 2, name = ''Bo'', phone = ''555-2222'', email = []\<rparr>],
      DATA_FILE = None\<rparr> =
     [\<lparr>id' = 1, name = ''Ana'', phone = ''555-1111'', email = ''ana@x.com''\<rparr>]"
proof -
  let ?st = "\<lparr>contacts = [\<lparr>id' = 1, name = ''Ana'', phone = ''555-1111'', email = ''ana@x.com''\<rparr>,
                  \<lparr>id' = 2, name = ''Bo'', phone = ''555-2222'', email = []\<rparr>],
      DATA_FILE = None\<rparr>"
  have w: "set '' '' \<subseteq> set WHITESPACE"
    by (simp add: WHITESPACE_def)
  have t: "trim '' An '' = ''An''"
    by (simp add: run_trim)
  have s1: "sublist ''An'' ''Ana''"
    using sublist_appendI [of "''An''" "[]" "''a''"] by simp
  have s2: "\<not> sublist ''An'' ''555-1111''" "\<not> sublist ''An'' ''ana@x.com''"
    "\<not> sublist ''An'' ''Bo''" "\<not> sublist ''An'' ''555-2222''" "\<not> sublist ''An'' []"
    by (simp_all add: sublist_Cons_right)
  have a: "searchContacts '' '' ?st = contacts ?st"
    using search_finds_substrings [of "'' ''" ?st, THEN conjunct2, THEN conjunct2] w by blast
  have b: "searchContacts '' An '' ?st =
      filter (\<lambda>c. sublist ''An'' (name c) \<or> sublist ''An'' (phone c) \<or>
        sublist ''An'' (email c)) (contacts ?st)"
    using search_finds_substrings [of "'' An ''" ?st, THEN conjunct1] unfolding t .
  have "searchContacts '' An '' ?st =
      [\<lparr>id' = 1, name = ''Ana'', phone = ''555-1111'', email = ''ana@x.com''\<rparr>]"
    unfolding b using s1 s2 by simp
  with a w t show ?thesis
    by simp
qed

text \<open>
  C7. When some Contact has the id and the three lines typed are blank, empty after
  \<^verbatim>\<open>trim\<close>, \<^verbatim>\<open>editContact\<close> leaves the whole collection as it was and reports that the
  Contact was updated.
\<close>

theorem edit_all_blank_keeps:
  assumes "\<exists>c \<in> set (contacts st). id' c = i"
    and "trim a = []" and "trim b = []" and "trim e = []"
  shows "contacts (fst (editContact i a b e st)) = contacts st \<and>
    snd (editContact i a b e st) = Updated"
  using editLoop_blank [OF assms(2-4) assms(1)] by (simp add: editContact_def)

theorem edit_all_blank_keeps_witness:
  "trim [] = [] \<and> trim ''  '' = [] \<and> trim [CHR 0x09, CHR 0x0D] = [] \<and>
   contacts (fst (editContact 3 [] ''  '' [CHR 0x09, CHR 0x0D]
     \<lparr>contacts = [\<lparr>id' = 3, name = ''Cy'', phone = ''555-2222'', email = ''cy@x.com''\<rparr>],
      DATA_FILE = None\<rparr>)) = [\<lparr>id' = 3, name = ''Cy'', phone = ''555-2222'', email = ''cy@x.com''\<rparr>] \<and>
   snd (editContact 3 [] ''  '' [CHR 0x09, CHR 0x0D]
     \<lparr>contacts = [\<lparr>id' = 3, name = ''Cy'', phone = ''555-2222'', email = ''cy@x.com''\<rparr>],
      DATA_FILE = None\<rparr>) = Updated"
proof -
  let ?st = "\<lparr>contacts = [\<lparr>id' = 3, name = ''Cy'', phone = ''555-2222'', email = ''cy@x.com''\<rparr>],
               DATA_FILE = None\<rparr>"
  have m: "\<exists>c \<in> set (contacts ?st). id' c = 3"
    by simp
  have t: "trim [] = []" "trim ''  '' = []" "trim [CHR 0x09, CHR 0x0D] = []"
    by (simp_all add: run_trim)
  from edit_all_blank_keeps [OF m t] t show ?thesis
    by simp
qed

text \<open>
  C8, as the code has it. Add, Edit and Delete keep the ids of the collection unique;
  loading does not make them so. From a collection without two Contacts of the same id,
  every sequence of Adds, Edits and Deletes in which no Add is performed on a largest id
  of \<open>INT_MAX\<close> leads to such a collection. A load gives the empty collection when there
  is no file, and otherwise the ids that \<^verbatim>\<open>std::stoi\<close> reads in the lines of the file, in
  their order, whether or not two of them are the same.
\<close>

theorem operations_keep_ids_unique:
  "(unique_ids (contacts st) \<and> adds_defined st ops \<longrightarrow> unique_ids (contacts (menu st ops))) \<and>
   (loadContacts init = Inr loaded \<longrightarrow>
      (case DATA_FILE init of
         None \<Rightarrow> contacts loaded = []
       | Some infile \<Rightarrow>
           map (\<lambda>c. Inr (id' c)) (contacts loaded) =
             map (\<lambda>l. stoi (first_field l)) (file_lines infile)))"
proof -
  have "map (\<lambda>c. Inr (id' c)) (contacts loaded) =
      map (\<lambda>l. stoi (first_field l)) (file_lines infile)"
    if "loadContacts init = Inr loaded" and "DATA_FILE init = Some infile" for infile
  proof -
    from that have "decode infile = Inr (contacts loaded)"
      by (auto simp: loadContacts_def split: sum.splits)
    then show ?thesis
      by (rule decode_ids)
  qed
  moreover have "contacts loaded = []"
    if "loadContacts init = Inr loaded" and "DATA_FILE init = None"
    using that by (auto simp: loadContacts_def)
  ultimately show ?thesis
    using menu_unique [of st ops] by (auto split: option.splits)
qed

theorem operations_keep_ids_unique_witness:
  "unique_ids [\<lparr>id' = 4, name = ''Di'', phone = [], email = []\<rparr>,
               \<lparr>id' = 2, name = ''Bo'', phone = [], email = []\<rparr>] \<and>
   adds_defined \<lparr>contacts = [\<lparr>id' = 4, name = ''Di'', phone = [], email = []\<rparr>,
                              \<lparr>id' = 2, name = ''Bo'', phone = [], email = []\<rparr>],
                  DATA_FILE = None\<rparr>
     [Add ''Ed'' [] [], Delete 4, Edit 2 ''Bob'' [] [], Add ''Flo'' [] []] \<and>
   contacts (menu \<lparr>contacts = [\<lparr>id' = 4, name = ''Di'', phone = [], email = []\<rparr>,
                              \<lparr>id' = 2, name = ''Bo'', phone = [], email = []\<rparr>],
                  DATA_FILE = None\<rparr>
     [Add ''Ed'' [] [], Delete 4, Edit 2 ''Bob'' [] [], Add ''Flo'' [] []]) =
     [\<lparr>id' = 2, name = ''Bob'', phone = [], email = []\<rparr>,
      \<lparr>id' = 5, name = ''Ed'', phone = [], email = []\<rparr>,
      \<lparr>id' = 6, name = ''Flo'', phone = [], email = []\<rparr>] \<and>
   unique_ids [\<lparr>id' = 2, name = ''Bob'', phone = [], email = []\<rparr>,
               \<lparr>id' = 5, name = ''Ed'', phone = [], email = []\<rparr>,
               \<lparr>id' = 6, name = ''Flo'', phone = [], email = []\<rparr>] \<and>
   loadContacts \<lparr>contacts = [], DATA_FILE = Some ''4|Di\<newline>2|Bo\<newline>''\<rparr> =
     Inr \<lparr>contacts = [\<lparr>id' = 4, name = ''Di'', phone = [], email = []\<rparr>,
                      \<lparr>id' = 2, name = ''Bo'', phone = [], email = []\<rparr>],
          DATA_FILE = Some ''4|Di\<newline>2|Bo\<newline>''\<rparr> \<and>
   map (\<lambda>l. stoi (first_field l)) (file_lines ''4|Di\<newline>2|Bo\<newline>'') = [Inr 4, Inr 2]"
proof -
  let ?cs = "[\<lparr>id' = 4, name = ''Di'', phone = [], email = []\<rparr>,
              \<lparr>id' = 2, name = ''Bo'', phone = [], email = []\<rparr>]"
  let ?st = "\<lparr>contacts = ?cs, DATA_FILE = None\<rparr>"
  let ?ops = "[Add ''Ed'' [] [], Delete 4, Edit 2 ''Bob'' [] [], Add ''Flo'' [] []]"
  let ?init = "\<lparr>contacts = [], DATA_FILE = Some ''4|Di\<newline>2|Bo\<newline>''\<rparr>"
  have tr: "trim ''Bob'' = ''Bob''" "trim [] = []"
    by (simp_all add: run_trim)
  have u: "unique_ids ?cs"
    by (simp add: unique_ids_def)
  have m: "contacts (menu ?st ?ops) =
     [\<lparr>id' = 2, name = ''Bob'', phone = [], email = []\<rparr>,
      \<lparr>id' = 5, name = ''Ed'', phone = [], email = []\<rparr>,
      \<lparr>id' = 6, name = ''Flo'', phone = [], email = []\<rparr>]"
    by (simp add: menu_def addContact_def Let_def nextId_def maxId_def word_sless_alt deleteContact_def remove_if_def
        editContact_def edit_fields_def saveContacts_def tr)
  have d: "adds_defined ?st ?ops"
    by (simp add: addContact_def Let_def nextId_def maxId_def word_sless_alt deleteContact_def remove_if_def
        editContact_def edit_fields_def saveContacts_def tr INT_MAX_def)
  have l: "loadContacts ?init = Inr (?init\<lparr>contacts := ?cs\<rparr>)"
    by (simp add: loadContacts_def run_decode)
  have fl: "file_lines ''4|Di\<newline>2|Bo\<newline>'' = [''4|Di'', ''2|Bo'']"
    by (simp add: file_lines.simps getline_def)
  from operations_keep_ids_unique [of ?st ?ops ?init "?init\<lparr>contacts := ?cs\<rparr>"] u d m l fl
  show ?thesis
    by simp
qed

text \<open>
  C8, as it is stated, fails: a file with two lines of the same id loads, and the
  collection loaded, before any operation, has that id twice.
\<close>

theorem load_duplicate_ids_counterexample:
  "loadContacts \<lparr>contacts = [], DATA_FILE = Some ''1|a|b|c\<newline>1|d|e|f\<newline>''\<rparr> =
     Inr \<lparr>contacts = [\<lparr>id' = 1, name = ''a'', phone = ''b'', email = ''c''\<rparr>,
                      \<lparr>id' = 1, name = ''d'', phone = ''e'', email = ''f''\<rparr>],
          DATA_FILE = Some ''1|a|b|c\<newline>1|d|e|f\<newline>''\<rparr> \<and>
   \<not> unique_ids (contacts (menu
     \<lparr>contacts = [\<lparr>id' = 1, name = ''a'', phone = ''b'', email = ''c''\<rparr>,
                  \<lparr>id' = 1, name = ''d'', phone = ''e'', email = ''f''\<rparr>],
      DATA_FILE = Some ''1|a|b|c\<newline>1|d|e|f\<newline>''\<rparr> []))"
  by (simp add: loadContacts_def run_decode menu_def unique_ids_def)

text \<open>
  C9. \<^verbatim>\<open>editContact\<close> changes the first Contact with the id, and that one only. Each
  field whose line is not blank becomes that line as it was typed, with the white space
  around it: \<^verbatim>\<open>trim\<close> decides whether the line is blank and is not applied to what is
  stored. A field whose line is blank stays.
\<close>

theorem edit_stores_raw_input:
  assumes "contacts st = pre @ c # post" and "\<forall>x \<in> set pre. id' x \<noteq> i" and "id' c = i"
  shows "snd (editContact i a b e st) = Updated \<and>
    contacts (fst (editContact i a b e st)) =
      pre @ \<lparr>id' = i,
             name = (if trim a \<noteq> [] then a else name c),
             phone = (if trim b \<noteq> [] then b else phone c),
             email = (if trim e \<noteq> [] then e else email c)\<rparr> # post"
proof -
  have "edit_fields a b e c =
      \<lparr>id' = i,
       name = (if trim a \<noteq> [] then a else name c),
       phone = (if trim b \<noteq> [] then b else phone c),
       email = (if trim e \<noteq> [] then e else email c)\<rparr>"
    using assms(3) by (cases c) (simp add: edit_fields_def)
  with editLoop_first [OF assms(2,3), of a b e post] assms(1) show ?thesis
    by (simp add: editContact_def)
qed

theorem edit_stores_raw_input_witness:
  "trim ''  Cyd '' = ''Cyd'' \<and> trim '' '' = [] \<and> trim ''c y@x.com '' = ''c y@x.com'' \<and>
   snd (editContact 3 ''  Cyd '' '' '' ''c y@x.com ''
     \<lparr>contacts = [\<lparr>id' = 1, name = ''Ana'', phone = ''1'', email = ''a@x''\<rparr>,
                  \<lparr>id' = 3, name = ''Cy'', phone = ''555-2222'', email = ''cy@x.com''\<rparr>,
                  \<lparr>id' = 3, name = ''Di'', phone = ''4'', email = ''d@x''\<rparr>],
      DATA_FILE = None\<rparr>) = Updated \<and>
   contacts (fst (editContact 3 ''  Cyd '' '' '' ''c y@x.com ''
     \<lparr>contacts = [\<lparr>id' = 1, name = ''Ana'', phone = ''1'', email = ''a@x''\<rparr>,
                  \<lparr>id' = 3, name = ''Cy'', phone = ''555-2222'', email = ''cy@x.com''\<rparr>,
                  \<lparr>id' = 3, name = ''Di'', phone = ''4'', email = ''d@x''\<rparr>],
      DATA_FILE = None\<rparr>)) =
     [\<lparr>id' = 1, name = ''Ana'', phone = ''1'', email = ''a@x''\<rparr>,
      \<lparr>id' = 3, name = ''  Cyd '', phone = ''555-2222'', email = ''c y@x.com ''\<rparr>,
      \<lparr>id' = 3, name = ''Di'', phone = ''4'', email = ''d@x''\<rparr>]"
proof -
  let ?pre = "[\<lparr>id' = 1, name = ''Ana'', phone = ''1'', email = ''a@x''\<rparr>]"
  let ?c = "\<lparr>id' = 3, name = ''Cy'', phone = ''555-2222'', email = ''cy@x.com''\<rparr>"
  let ?post = "[\<lparr>id' = 3, name = ''Di'', phone = ''4'', email = ''d@x''\<rparr>]"
  let ?st = "\<lparr>contacts = ?pre @ ?c # ?post, DATA_FILE = None\<rparr>"
  have t: "trim ''  Cyd '' = ''Cyd''" "trim '' '' = []" "trim ''c y@x.com '' = ''c y@x.com''"
    by (simp_all add: run_trim)
  have h1: "contacts ?st = ?pre @ ?c # ?post"
    by simp
  have h2: "\<forall>x \<in> set ?pre. id' x \<noteq> 3"
    by simp
  have h3: "id' ?c = 3"
    by simp
  from edit_stores_raw_input [OF h1 h2 h3, of "''  Cyd ''" "'' ''" "''c y@x.com ''"] t
  show ?thesis
    by simp
qed

text \<open>
  C10. A line whose first field \<^verbatim>\<open>std::stoi\<close> accepts and which has fewer than four
  fields does not make the load fail. The body of the loop makes one Contact of it, with
  the id read and with each field that is missing empty, as is the email of a line that
  ends with the third delimiter. \<open>decode\<close> succeeds with exactly that Contact on the line
  alone, with or without the newline that ends it, and with that Contact in its place on
  the line between the records written for any Contacts \<open>pre\<close> and \<open>post\<close>.
\<close>

theorem short_line_loads:
  assumes "stoi f1 = Inr i"
    and "\<forall>c \<in> set (f1 @ f2 @ f3). c \<noteq> CHR ''|'' \<and> c \<noteq> CHR 0x0A"
    and "\<forall>x \<in> set (pre @ post). plain_fields x"
  shows "list_all
    (\<lambda>(line, c).
       parse_line line = Inr c \<and>
       decode line = Inr [c] \<and>
       decode (line @ [CHR 0x0A]) = Inr [c] \<and>
       decode (encode pre @ line @ CHR 0x0A # encode post) = Inr (pre @ c # post))
    [(f1, \<lparr>id' = i, name = [], phone = [], email = []\<rparr>),
     (f1 @ ''|'' @ f2, \<lparr>id' = i, name = f2, phone = [], email = []\<rparr>),
     (f1 @ ''|'' @ f2 @ ''|'' @ f3, \<lparr>id' = i, name = f2, phone = f3, email = []\<rparr>),
     (f1 @ ''|'' @ f2 @ ''|'' @ f3 @ ''|'', \<lparr>id' = i, name = f2, phone = f3, email = []\<rparr>)]"
proof -
  have bar: "CHR ''|'' \<notin> set f1" "CHR ''|'' \<notin> set f2" "CHR ''|'' \<notin> set f3"
    and nl: "CHR 0x0A \<notin> set f1" "CHR 0x0A \<notin> set f2" "CHR 0x0A \<notin> set f3"
    using assms(2) by auto
  have pre: "\<forall>x \<in> set pre. plain_fields x" and post: "\<forall>x \<in> set post. plain_fields x"
    using assms(3) by auto
  have p1: "parse_line f1 = Inr \<lparr>id' = i, name = [], phone = [], email = []\<rparr>"
    using assms(1) bar by (simp add: parse_line_def read_field_last)
  have p2: "parse_line (f1 @ ''|'' @ f2) = Inr \<lparr>id' = i, name = f2, phone = [], email = []\<rparr>"
    using assms(1) bar by (simp add: parse_line_def read_field_delim read_field_last)
  have p3: "parse_line (f1 @ ''|'' @ f2 @ ''|'' @ f3) =
      Inr \<lparr>id' = i, name = f2, phone = f3, email = []\<rparr>"
    using assms(1) bar by (simp add: parse_line_def read_field_delim read_field_last)
  have p4: "parse_line (f1 @ ''|'' @ f2 @ ''|'' @ f3 @ ''|'') =
      Inr \<lparr>id' = i, name = f2, phone = f3, email = []\<rparr>"
    using parse_line_fields [OF bar(1) bar(2) bar(3) _ assms(1), of "[]"] by simp
  have n1: "CHR 0x0A \<notin> set f1"
    and n2: "CHR 0x0A \<notin> set (f1 @ ''|'' @ f2)"
    and n3: "CHR 0x0A \<notin> set (f1 @ ''|'' @ f2 @ ''|'' @ f3)"
    and n4: "CHR 0x0A \<notin> set (f1 @ ''|'' @ f2 @ ''|'' @ f3 @ ''|'')"
    using nl by simp_all
  note l1 = parsed_line_loads [OF p1 n1 pre post]
  note l2 = parsed_line_loads [OF p2 n2 pre post]
  note l3 = parsed_line_loads [OF p3 n3 pre post]
  note l4 = parsed_line_loads [OF p4 n4 pre post]
  show ?thesis
    using p1 p2 p3 p4 l1 l2 l3 l4 by simp
qed

theorem short_line_loads_witness:
  "stoi ''5'' = Inr 5 \<and>
   plain_fields \<lparr>id' = 1, name = ''Ana'', phone = ''1'', email = ''a@x''\<rparr> \<and>
   plain_fields \<lparr>id' = 9, name = ''Zed'', phone = [], email = []\<rparr> \<and>
   parse_line ''5'' = Inr \<lparr>id' = 5, name = [], phone = [], email = []\<rparr> \<and>
   decode ''5'' = Inr [\<lparr>id' = 5, name = [], phone = [], email = []\<rparr>] \<and>
   decode ''5\<newline>'' = Inr [\<lparr>id' = 5, name = [], phone = [], email = []\<rparr>] \<and>
   decode ''5|Bo'' = Inr [\<lparr>id' = 5, name = ''Bo'', phone = [], email = []\<rparr>] \<and>
   decode ''5|Bo|555\<newline>'' = Inr [\<lparr>id' = 5, name = ''Bo'', phone = ''555'', email = []\<rparr>] \<and>
   decode ''5|Bo|555|\<newline>'' = Inr [\<lparr>id' = 5, name = ''Bo'', phone = ''555'', email = []\<rparr>] \<and>
   decode ''1|Ana|1|a@x\<newline>5|Bo\<newline>9|Zed||\<newline>'' =
     Inr [\<lparr>id' = 1, name = ''Ana'', phone = ''1'', email = ''a@x''\<rparr>,
          \<lparr>id' = 5, name = ''Bo'', phone = [], email = []\<rparr>,
          \<lparr>id' = 9, name = ''Zed'', phone = [], email = []\<rparr>]"
proof -
  let ?a = "\<lparr>id' = 1, name = ''Ana'', phone = ''1'', email = ''a@x''\<rparr>"
  let ?z = "\<lparr>id' = 9, name = ''Zed'', phone = [], email = []\<rparr>"
  have s: "stoi ''5'' = Inr 5"
    by (simp add: stoi_def isspace_def isdigit_def digits_val_def digit_val_def
        INT_MIN_def INT_MAX_def)
  have h: "\<forall>c \<in> set (''5'' @ ''Bo'' @ ''555''). c \<noteq> CHR ''|'' \<and> c \<noteq> CHR 0x0A"
    by simp
  have a: "plain_fields ?a" and z: "plain_fields ?z"
    by (simp_all add: plain_fields_def)
  then have pf: "\<forall>x \<in> set ([?a] @ [?z]). plain_fields x"
    by simp
  have e: "encode [?a] = ''1|Ana|1|a@x\<newline>''" "encode [?z] = ''9|Zed||\<newline>''"
    by (simp_all add: encode_def put_contact_def put_int_def digits.simps digit_char_def)
  from short_line_loads [OF s h pf] s a z show ?thesis
    by (simp add: e)
qed

end
